theory Spec2Isabelle
  imports Main
begin

section \<open>Values, objects and the component state\<close>

text \<open>
  JavaScript values. Objects and arrays live in a store and are denoted by their address
  (\<open>Ref\<close>), so that the strict comparison \<open>!==\<close> of the source is plain inequality of
  \<open>jsval\<close>: two references are equal exactly when they denote the same object. Numbers are
  integers (the only numbers the component itself produces are its keys); \<open>NaN\<close> is not
  represented. \<open>Method n\<close> is the method \<open>n\<close> found on the prototype of the class,
  \<open>EmitFn i m\<close> the arrow function \<open>() => { this._emitChange(m) }\<close> created for the
  component with identity \<open>i\<close> by the class fields \<open>_emitCreatedFactory\<close> and
  \<open>_emitLoadedFactory\<close>.
\<close>

datatype jsval =
    Undefined | Null | Bool bool | Num int | Str string
  | Ref nat | Method string | EmitFn nat string

text \<open>
  An action is an external object with one asynchronous operation \<open>run(context)\<close>. The
  model keeps what the listener wiring can observe of it: the promise it returns resolves
  with a value, rejects, or is still pending. The context carries \<open>event\<close>, \<open>ifData\<close>
  and \<open>arguments\<close>; its \<open>component\<close> entry is the component at hand.
\<close>

record run_ctx =
  ctx_event :: string
  ctx_ifData :: jsval
  ctx_arguments :: jsval

datatype outcome = Resolves jsval | Rejects jsval | Pending

datatype action = Action "run_ctx \<Rightarrow> outcome"

datatype listener = Listener string "action list"

text \<open>
  Store objects: a keyed mapping with its keys in insertion order, an array of values, and
  an array of listeners \<open>{event, actions}\<close> as the \<open>listeners\<close> property expects it.
\<close>

datatype jsobj =
    Plain "(string \<times> jsval) list"
  | Array "jsval list"
  | Listeners "listener list"

text \<open>
  A subscription of the event emitter is either a function value that was passed to
  \<open>on\<close> as it is, or the \<open>async () => {...}\<close> closure that \<open>_setListeners\<close> builds
  for one declared listener, which captures the listener and \<open>ifData\<close>.
\<close>

datatype handler = HFun jsval | HChain listener jsval

text \<open>
  What can be observed of a component: every call of \<open>emit\<close> with its arguments, every
  call of an action's \<open>run\<close> with its context, and every call of an arrow function that
  belongs to another component (whose effect is on that component).
\<close>

datatype entry = Emit string "jsval list" | Run run_ctx | Foreign nat string

datatype error = InvalidArgument | TypeError | RangeError

text \<open>
  An invocation of a listener's closure that is suspended at an \<open>await\<close>: the promise it
  waits for and the actions still to run.
\<close>

record chain =
  ch_event :: string
  ch_ifData :: jsval
  ch_awaiting :: outcome
  ch_rest :: "action list"

text \<open>
  The component: its identity as an object, its own enumerable properties in insertion
  order (the class puts every property \<open>foo\<close> directly on the instance as \<open>_foo\<close>), the
  emitter's subscriptions in the order of subscription, the suspended listener
  invocations, and the observations so far.
\<close>

record component =
  cid :: nat
  own :: "(string \<times> jsval) list"
  subs :: "(string \<times> handler) list"
  suspended :: "chain list"
  trace :: "entry list"

text \<open>What components share: the object store, its next free address and the module
  variable \<open>nextKey\<close>.\<close>

record globals =
  heap :: "nat \<Rightarrow> jsobj"
  next_addr :: nat
  nextKey :: nat

type_synonym world = "component \<times> globals"

definition alloc :: "jsobj \<Rightarrow> globals \<Rightarrow> nat \<times> globals" where
  "alloc obj g =
     (next_addr g, g\<lparr>heap := (heap g)(next_addr g := obj), next_addr := Suc (next_addr g)\<rparr>)"

section \<open>Language primitives\<close>

fun typeof :: "jsval \<Rightarrow> string" where
  "typeof Undefined = ''undefined''"
| "typeof Null = ''object''"
| "typeof (Bool b) = ''boolean''"
| "typeof (Num n) = ''number''"
| "typeof (Str s) = ''string''"
| "typeof (Ref a) = ''object''"
| "typeof (Method n) = ''function''"
| "typeof (EmitFn i m) = ''function''"

fun truthy :: "jsval \<Rightarrow> bool" where
  "truthy Undefined = False"
| "truthy Null = False"
| "truthy (Bool b) = b"
| "truthy (Num n) = (n \<noteq> 0)"
| "truthy (Str s) = (s \<noteq> [])"
| "truthy (Ref a) = True"
| "truthy (Method n) = True"
| "truthy (EmitFn i m) = True"

definition lookup :: "(string \<times> jsval) list \<Rightarrow> string \<Rightarrow> jsval" where
  "lookup kvs k = (case map_of kvs k of Some v \<Rightarrow> v | None \<Rightarrow> Undefined)"

text \<open>
  \<open>props[name]\<close> for the four names the class reads from its argument. Reading a property
  of \<open>undefined\<close> or \<open>null\<close> is a TypeError (\<open>None\<close>); an array or a primitive has none of
  the four. (A function has a \<open>name\<close> of its own, which the model omits: \<open>set\<close> rejects
  a function before it reads anything, and the constructor fails with it.)
\<close>

fun props_get :: "(nat \<Rightarrow> jsobj) \<Rightarrow> jsval \<Rightarrow> string \<Rightarrow> jsval option" where
  "props_get h Undefined k = None"
| "props_get h Null k = None"
| "props_get h (Ref a) k = (case h a of Plain kvs \<Rightarrow> Some (lookup kvs k) | _ \<Rightarrow> Some Undefined)"
| "props_get h v k = Some Undefined"

text \<open>\<open>obj[k] = v\<close>: an existing key keeps its place, a new key is appended.\<close>

fun assign :: "string \<Rightarrow> jsval \<Rightarrow> (string \<times> jsval) list \<Rightarrow> (string \<times> jsval) list" where
  "assign k v [] = [(k, v)]"
| "assign k v ((k', v') # kvs) = (if k' = k then (k', v) # kvs else (k', v') # assign k v kvs)"

text \<open>The methods of \<open>Component.prototype\<close> whose names begin with an underscore: what
  \<open>this['_' + name]\<close> finds when the instance has no such property of its own. (The
  accessors of \<open>Object.prototype\<close>, such as \<open>__proto__\<close>, are outside the model.)\<close>

definition component_methods :: "string list" where
  "component_methods =
     [''_getComponentMSONSchema'', ''_create'', ''_emitChange'', ''_set'', ''_push'',
      ''_setIfUndefinedProp'', ''_setIfUndefined'', ''_setName'', ''_setPassed'',
      ''_setDefaults'', ''_setListeners'', ''_get'', ''_getIfAllowed'', ''_bubbleUpEvents'',
      ''_setOn'', ''_getFrom'']"

definition this_get :: "component \<Rightarrow> string \<Rightarrow> jsval" where
  "this_get c k =
     (case map_of (own c) k of
        Some v \<Rightarrow> v
      | None \<Rightarrow> if k \<in> set component_methods then Method k else Undefined)"

definition this_set :: "string \<Rightarrow> jsval \<Rightarrow> component \<Rightarrow> component" where
  "this_set k v c = c\<lparr>own := assign k v (own c)\<rparr>"

section \<open>The event emitter\<close>

text \<open>
  The emitter of the \<open>events\<close> library, as far as the class uses it: \<open>on\<close> appends a
  subscription, \<open>removeListener\<close> removes the most recently added subscription of that
  function for that event, \<open>removeAllListeners\<close> empties the registry, and \<open>emit\<close> calls
  the subscriptions of the event in the order of subscription. The library's own events
  (\<open>newListener\<close>, \<open>removeListener\<close>, \<open>error\<close>) are not modelled.
\<close>

definition on :: "string \<Rightarrow> handler \<Rightarrow> component \<Rightarrow> component" where
  "on ev hdl c = c\<lparr>subs := subs c @ [(ev, hdl)]\<rparr>"

fun is_sub :: "string \<Rightarrow> jsval \<Rightarrow> string \<times> handler \<Rightarrow> bool" where
  "is_sub ev f (e, HFun f') = (e = ev \<and> f' = f)"
| "is_sub ev f (e, HChain l d) = False"

fun remove_first :: "('a \<Rightarrow> bool) \<Rightarrow> 'a list \<Rightarrow> 'a list" where
  "remove_first P [] = []"
| "remove_first P (y # ys) = (if P y then ys else y # remove_first P ys)"

definition removeListener :: "string \<Rightarrow> jsval \<Rightarrow> component \<Rightarrow> component" where
  "removeListener ev f c = c\<lparr>subs := rev (remove_first (is_sub ev f) (rev (subs c)))\<rparr>"

definition handlers_for :: "string \<Rightarrow> component \<Rightarrow> handler list" where
  "handlers_for ev c = map snd (filter (\<lambda>(e, hdl). e = ev) (subs c))"

definition record_entry :: "entry \<Rightarrow> component \<Rightarrow> component" where
  "record_entry e c = c\<lparr>trace := trace c @ [e]\<rparr>"

text \<open>
  Synchronous emission. A handler that is the component's own arrow function emits a
  milestone in turn, so emission nests; the first argument bounds the nesting, and
  \<open>emit\<close> with no depth left is the engine's RangeError for an exhausted call stack.
  The wiring of the class nests twice at most (\<open>create\<close>, then \<open>created\<close>).

  \<open>call_fn\<close>: calling a function value. The arrow function of the component emits its
  milestone; that of another component acts on that component and is only recorded; a
  method of the prototype is not followed; anything else is not a function. \<open>await_action\<close>: the body of the listener's
  closure from one action on: it calls \<open>run\<close> with the previous output as
  \<open>arguments\<close> and suspends at the \<open>await\<close>; with no action left it reaches the
  \<open>switch\<close> and calls \<open>this._emitCreatedFactory()\<close> or \<open>this._emitLoadedFactory()\<close>.
  Whatever the closure throws rejects its promise and does not reach the emitter.
\<close>

fun emit :: "nat \<Rightarrow> string \<Rightarrow> jsval list \<Rightarrow> component \<Rightarrow> error option \<times> component"
  and run_handlers :: "nat \<Rightarrow> handler list \<Rightarrow> component \<Rightarrow> error option \<times> component"
  and call_fn :: "nat \<Rightarrow> jsval \<Rightarrow> component \<Rightarrow> error option \<times> component"
  and await_action :: "nat \<Rightarrow> string \<Rightarrow> jsval \<Rightarrow> jsval \<Rightarrow> action list \<Rightarrow> component \<Rightarrow> component"
where
  "emit 0 ev args c = (Some RangeError, c)"
| "emit (Suc d) ev args c = run_handlers d (handlers_for ev c) (record_entry (Emit ev args) c)"
| "run_handlers d [] c = (None, c)"
| "run_handlers d (HFun f # hs) c =
     (case call_fn d f c of
        (Some e, c') \<Rightarrow> (Some e, c')
      | (None, c') \<Rightarrow> run_handlers d hs c')"
| "run_handlers d (HChain (Listener ev acts) ifData # hs) c =
     run_handlers d hs (await_action d ev ifData Null acts c)"
| "call_fn d (EmitFn i m) c =
     (if i = cid c then
        (case emit d m [Undefined] c of
           (Some e, c') \<Rightarrow> (Some e, c')
         | (None, c') \<Rightarrow> emit d ''$change'' [Str m, Undefined] c')
      else (None, record_entry (Foreign i m) c))"
| "call_fn d (Method n) c = (None, c)"
| "call_fn d v c = (Some TypeError, c)"
| "await_action d ev ifData output (Action run # rest) c =
     (let ctx = \<lparr>ctx_event = ev, ctx_ifData = ifData, ctx_arguments = output\<rparr> in
      (record_entry (Run ctx) c)\<lparr>suspended := suspended c @
         [\<lparr>ch_event = ev, ch_ifData = ifData, ch_awaiting = run ctx, ch_rest = rest\<rparr>]\<rparr>)"
| "await_action d ev ifData output [] c =
     (if ev = ''create'' then snd (call_fn d (this_get c ''_emitCreatedFactory'') c)
      else if ev = ''load'' then snd (call_fn d (this_get c ''_emitLoadedFactory'') c)
      else c)"


text \<open>The depth available to a call from the top level. Any value from two on gives the
  same results for every wiring the class builds.\<close>

definition max_depth :: nat where
  "max_depth = Suc (Suc (Suc (Suc 0)))"

text \<open>
  A suspended invocation is resumed once the promise it awaits has settled; any settled
  one may be next. A rejection ends the invocation: the closure's own promise rejects and
  nothing after the \<open>await\<close> runs. A pending promise leaves the invocation suspended.
\<close>

definition remove_nth :: "nat \<Rightarrow> 'a list \<Rightarrow> 'a list" where
  "remove_nth i xs = take i xs @ drop (Suc i) xs"

definition resume :: "nat \<Rightarrow> component \<Rightarrow> component" where
  "resume i c =
     (if i < length (suspended c) then
        (let ch = suspended c ! i in
         case ch_awaiting ch of
           Pending \<Rightarrow> c
         | Rejects e \<Rightarrow> c\<lparr>suspended := remove_nth i (suspended c)\<rparr>
         | Resolves v \<Rightarrow>
             await_action max_depth (ch_event ch) (ch_ifData ch) v (ch_rest ch)
               (c\<lparr>suspended := remove_nth i (suspended c)\<rparr>))
      else c)"

section \<open>The component\<close>

text \<open>\<open>let nextKey = 0; const getNextKey = () => nextKey++\<close>. The counter is a double:
  from \<open>2^53\<close> on, adding one gives the same number again.\<close>

definition getNextKey :: "globals \<Rightarrow> jsval \<times> globals" where
  "getNextKey g =
     (Num (int (nextKey g)),
      g\<lparr>nextKey := (if nextKey g < 2 ^ 53 then Suc (nextKey g) else nextKey g)\<rparr>)"

text \<open>The schema literal that \<open>_getComponentMSONSchema\<close> returns, built anew in the store
  at every call.\<close>

definition u_getComponentMSONSchema :: "globals \<Rightarrow> jsval \<times> globals" where
  "u_getComponentMSONSchema g =
     (let (f1, g1) = alloc (Plain [(''name'', Str ''component''), (''component'', Str ''TextField'')]) g;
          (f2, g2) = alloc (Plain [(''name'', Str ''name''), (''component'', Str ''TextField''),
                                   (''required'', Bool True)]) g1;
          (fm, g3) = alloc (Plain [(''component'', Str ''ObjectForm'')]) g2;
          (f3, g4) = alloc (Plain [(''name'', Str ''schema''), (''component'', Str ''FormField''),
                                   (''form'', Ref fm)]) g3;
          (fs, g5) = alloc (Array [Ref f1, Ref f2, Ref f3]) g4;
          (s, g6) = alloc (Plain [(''component'', Str ''Form''), (''fields'', Ref fs)]) g5
      in (Ref s, g6))"

definition u_emitChange :: "string \<Rightarrow> jsval \<Rightarrow> component \<Rightarrow> error option \<times> component" where
  "u_emitChange name v c =
     (case emit max_depth name [v] c of
        (Some e, c') \<Rightarrow> (Some e, c')
      | (None, c') \<Rightarrow> emit max_depth ''$change'' [Str name, v] c')"

definition u_set :: "string \<Rightarrow> jsval \<Rightarrow> component \<Rightarrow> error option \<times> component" where
  "u_set name v c =
     (if this_get c (''_'' @ name) \<noteq> v \<and> (this_get c (''_'' @ name) \<noteq> Undefined \<or> v \<noteq> Null)
      then u_emitChange name v (this_set (''_'' @ name) v c)
      else (None, c))"

definition u_get :: "component \<Rightarrow> string \<Rightarrow> jsval" where
  "u_get c name = (if this_get c (''_'' @ name) = Undefined then Null else this_get c (''_'' @ name))"

text \<open>\<open>_push\<close>: \<open>values.push(value)\<close> changes the stored array in place; a value that is
  not an array is replaced by a new array. (The class pushes onto \<open>schema\<close> only, which
  nothing else writes; an array of listeners is not an array of values here.)\<close>

definition u_push :: "string \<Rightarrow> jsval \<Rightarrow> world \<Rightarrow> error option \<times> world" where
  "u_push name v w =
     (case w of (c, g) \<Rightarrow>
        (case u_get c name of
           Ref a \<Rightarrow>
             (case heap g a of
                Array xs \<Rightarrow>
                  (let g' = g\<lparr>heap := (heap g)(a := Array (xs @ [v]))\<rparr> in
                   case u_set name (Ref a) c of (r, c') \<Rightarrow> (r, c', g'))
              | _ \<Rightarrow>
                  (let (a', g') = alloc (Array [v]) g in
                   case u_set name (Ref a') c of (r, c') \<Rightarrow> (r, c', g')))
         | _ \<Rightarrow>
             (let (a', g') = alloc (Array [v]) g in
              case u_set name (Ref a') c of (r, c') \<Rightarrow> (r, c', g'))))"

definition u_setIfUndefinedProp :: "jsval \<Rightarrow> string \<Rightarrow> world \<Rightarrow> error option \<times> world" where
  "u_setIfUndefinedProp props name w =
     (case w of (c, g) \<Rightarrow>
        (case props_get (heap g) props name of
           None \<Rightarrow> (Some TypeError, c, g)
         | Some v \<Rightarrow>
             if v \<noteq> Undefined then (case u_set name v c of (r, c') \<Rightarrow> (r, c', g))
             else (None, c, g)))"

definition u_setName :: "jsval \<Rightarrow> world \<Rightarrow> error option \<times> world" where
  "u_setName props w = u_setIfUndefinedProp props ''name'' w"

definition u_setPassed :: "jsval \<Rightarrow> world \<Rightarrow> error option \<times> world" where
  "u_setPassed props w = u_setIfUndefinedProp props ''passed'' w"

text \<open>\<open>props.listeners.forEach(listener => this.on(listener.event, async () => ...))\<close>.\<close>

fun subscribe_all :: "listener list \<Rightarrow> jsval \<Rightarrow> component \<Rightarrow> component" where
  "subscribe_all [] ifData c = c"
| "subscribe_all (Listener ev acts # ls) ifData c =
     subscribe_all ls ifData (on ev (HChain (Listener ev acts) ifData) c)"

text \<open>
  \<open>_setListeners\<close>. The flags \<open>hasOnCreate\<close> and \<open>hasOnLoad\<close> start as \<open>false\<close> and are
  assigned only inside the asynchronous closures, none of which has run when the two
  final tests read them. A \<open>listeners\<close> value without \<open>forEach\<close> is a TypeError, raised
  after the value was stored; of the untyped arrays only the empty one is covered.
\<close>

definition u_setListeners :: "jsval \<Rightarrow> world \<Rightarrow> error option \<times> world" where
  "u_setListeners props w =
     (case w of (c, g) \<Rightarrow>
        (let hasOnCreate = False;
             hasOnLoad = False;
             c1 = removeListener ''create'' (this_get c ''_emitCreatedFactory'') c;
             c2 = removeListener ''load'' (this_get c1 ''_emitLoadedFactory'') c1
         in
         case props_get (heap g) props ''listeners'' of
           None \<Rightarrow> (Some TypeError, c2, g)
         | Some ls \<Rightarrow>
             (case
                (if ls \<noteq> Undefined then
                   (case props_get (heap g) props ''passed'' of
                      None \<Rightarrow> (Some TypeError, c2)
                    | Some ifData \<Rightarrow>
                        (case u_set ''listeners'' ls c2 of
                           (Some e, c3) \<Rightarrow> (Some e, c3)
                         | (None, c3) \<Rightarrow>
                             (case ls of
                                Ref a \<Rightarrow>
                                  (case heap g a of
                                     Listeners xs \<Rightarrow> (None, subscribe_all xs ifData c3)
                                   | Array [] \<Rightarrow> (None, c3)
                                   | _ \<Rightarrow> (Some TypeError, c3))
                              | _ \<Rightarrow> (Some TypeError, c3))))
                 else (None, c2))
              of
                (Some e, c4) \<Rightarrow> (Some e, c4, g)
              | (None, c4) \<Rightarrow>
                  (let c5 = (if \<not> hasOnCreate
                             then on ''create'' (HFun (this_get c4 ''_emitCreatedFactory'')) c4 else c4);
                       c6 = (if \<not> hasOnLoad
                             then on ''load'' (HFun (this_get c5 ''_emitLoadedFactory'')) c5 else c5)
                   in (None, c6, g)))))"

text \<open>\<open>set\<close>.\<close>

definition set_props :: "jsval \<Rightarrow> world \<Rightarrow> error option \<times> world" where
  "set_props props w =
     (if typeof props \<noteq> ''object'' then (Some InvalidArgument, w)
      else
        (case u_setName props w of
           (Some e, w1) \<Rightarrow> (Some e, w1)
         | (None, w1) \<Rightarrow>
        (case u_setListeners props w1 of
           (Some e, w2) \<Rightarrow> (Some e, w2)
         | (None, w2) \<Rightarrow>
        (case u_setPassed props w2 of
           (Some e, w3) \<Rightarrow> (Some e, w3)
         | (None, w3) \<Rightarrow>
        (case props_get (heap (snd w3)) props ''schema'' of
           None \<Rightarrow> (Some TypeError, w3)
         | Some sc \<Rightarrow> if sc \<noteq> Undefined then u_push ''schema'' sc w3 else (None, w3))))))"


definition u_getIfAllowed :: "component \<Rightarrow> string \<Rightarrow> string list \<Rightarrow> jsval" where
  "u_getIfAllowed c name allowedNames = (if name \<in> set allowedNames then u_get c name else Undefined)"

definition allowed_names :: "string list" where
  "allowed_names = [''name'', ''listeners'', ''passed'', ''schema'']"

definition getOne :: "component \<Rightarrow> string \<Rightarrow> jsval" where
  "getOne c name = u_getIfAllowed c name allowed_names"

text \<open>\<open>name.replace('_', '')\<close> removes the first underscore of the name.\<close>

fun replace_underscore :: "string \<Rightarrow> string" where
  "replace_underscore [] = []"
| "replace_underscore (x # xs) = (if x = CHR ''_'' then xs else x # replace_underscore xs)"

text \<open>
  \<open>get\<close>. Its argument is nothing (any falsy value, the empty name included), an array
  of names, or one name. The first two build a new object, given here by its entries in
  key order; for every own property of the instance the first branch stores
  \<open>values[n] = this.getOne(n)\<close>, whatever \<open>getOne\<close> returns.
\<close>

datatype get_arg = NoNames | Names "string list" | Name string

datatype get_result = Snapshot "(string \<times> jsval) list" | Single jsval

definition get_all :: "component \<Rightarrow> (string \<times> jsval) list" where
  "get_all c =
     foldl (\<lambda>values name. assign (replace_underscore name) (getOne c (replace_underscore name)) values)
       [] (map fst (own c))"

definition get_props :: "get_arg \<Rightarrow> component \<Rightarrow> get_result" where
  "get_props names c =
     (case names of
        NoNames \<Rightarrow> Snapshot (get_all c)
      | Names ns \<Rightarrow> Snapshot (foldl (\<lambda>values name. assign name (getOne c name) values) [] ns)
      | Name n \<Rightarrow> if n = [] then Snapshot (get_all c) else Single (getOne c n))"

definition getKey :: "component \<Rightarrow> jsval" where
  "getKey c = this_get c ''_key''"

definition emitLoad :: "component \<Rightarrow> error option \<times> component" where
  "emitLoad c = u_emitChange ''load'' Undefined c"

text \<open>
  \<open>clone\<close>. \<open>_.cloneDeep\<close> of the library gives a new object with the same own
  properties: a primitive or a function is taken over as it is, an object or array is
  copied into the store by the library's deep copy, which is the parameter \<open>dc\<close>. Then
  \<open>removeAllListeners\<close> gives the copy an empty registry. The copy has run nothing yet.
\<close>

fun cloneDeep_val :: "(nat \<Rightarrow> globals \<Rightarrow> nat \<times> globals) \<Rightarrow> jsval \<Rightarrow> globals \<Rightarrow> jsval \<times> globals" where
  "cloneDeep_val dc (Ref a) g = (case dc a g of (a', g') \<Rightarrow> (Ref a', g'))"
| "cloneDeep_val dc v g = (v, g)"

fun cloneDeep_own :: "(nat \<Rightarrow> globals \<Rightarrow> nat \<times> globals) \<Rightarrow> (string \<times> jsval) list \<Rightarrow> globals
    \<Rightarrow> (string \<times> jsval) list \<times> globals" where
  "cloneDeep_own dc [] g = ([], g)"
| "cloneDeep_own dc ((k, v) # kvs) g =
     (case cloneDeep_val dc v g of (v', g1) \<Rightarrow>
        (case cloneDeep_own dc kvs g1 of (kvs', g2) \<Rightarrow> ((k, v') # kvs', g2)))"

definition removeAllListeners :: "world \<Rightarrow> world" where
  "removeAllListeners w =
     (case w of (c, g) \<Rightarrow>
        (let (e, g') = alloc (Plain []) g in
         (this_set ''_eventsCount'' (Num 0) (this_set ''_events'' (Ref e) (c\<lparr>subs := []\<rparr>)), g')))"

definition clone :: "(nat \<Rightarrow> globals \<Rightarrow> nat \<times> globals) \<Rightarrow> world \<Rightarrow> world" where
  "clone dc w =
     (case w of (c, g) \<Rightarrow>
        (let (i, g1) = alloc (Plain []) g;
             (kvs, g2) = cloneDeep_own dc (own c) g1
         in removeAllListeners
              (\<lparr>cid = i, own = kvs, subs = subs c, suspended = [], trace = []\<rparr>, g2)))"

text \<open>
  The constructor. \<open>super(props)\<close> makes the emitter with its own fields, the class
  fields follow, then the body. A constructor that throws yields no component.
\<close>

definition u_create :: "world \<Rightarrow> error option \<times> world" where
  "u_create w =
     (case w of (c, g) \<Rightarrow>
        (let (sc, g1) = u_getComponentMSONSchema g;
             (p, g2) = alloc (Plain [(''schema'', sc)]) g1
         in set_props (Ref p) (c, g2)))"

definition new_instance :: "globals \<Rightarrow> world" where
  "new_instance g =
     (let (i, g1) = alloc (Plain []) g;
          (e, g2) = alloc (Plain []) g1
      in (\<lparr>cid = i,
           own = [(''_events'', Ref e), (''_eventsCount'', Num 0), (''_maxListeners'', Undefined),
                  (''_emitCreatedFactory'', EmitFn i ''created''),
                  (''_emitLoadedFactory'', EmitFn i ''loaded'')],
           subs = [], suspended = [], trace = []\<rparr>, g2))"

definition new_Component :: "jsval \<Rightarrow> globals \<Rightarrow> error + world" where
  "new_Component props g =
     (case (if truthy props then u_setName props (new_instance g) else (None, new_instance g)) of
        (Some e, w1) \<Rightarrow> Inl e
      | (None, w1) \<Rightarrow>
     (case u_create w1 of
        (Some e, w2) \<Rightarrow> Inl e
      | (None, (c2, g2)) \<Rightarrow>
     (case (if props = Undefined
            then (let (p, g2') = alloc (Plain []) g2 in set_props (Ref p) (c2, g2'))
            else set_props props (c2, g2)) of
        (Some e, w3) \<Rightarrow> Inl e
      | (None, (c3, g3)) \<Rightarrow>
     (case u_emitChange ''create'' Undefined c3 of
        (Some e, c4) \<Rightarrow> Inl e
      | (None, c4) \<Rightarrow>
          (let (k, g4) = getNextKey g3 in Inr (this_set ''_key'' k c4, g4))))))"


section \<open>Framing of the event machinery\<close>

text \<open>\<open>extends c c'\<close>: \<open>c'\<close> is \<open>c\<close> after some emissions: same identity, properties and
  subscriptions, with more observations and more suspended invocations.\<close>

definition extends :: "component \<Rightarrow> component \<Rightarrow> bool" where
  "extends c c' \<longleftrightarrow>
     cid c' = cid c \<and> own c' = own c \<and> subs c' = subs c \<and>
     (\<exists>ys. trace c' = trace c @ ys) \<and> (\<exists>zs. suspended c' = suspended c @ zs)"


text \<open>The properties that \<open>set\<close> writes, and \<open>frame c c'\<close>: \<open>c'\<close> is the same object as
  \<open>c\<close> and differs from it in these properties at most.\<close>

definition data_keys :: "string list" where
  "data_keys = [''_name'', ''_listeners'', ''_passed'', ''_schema'']"

definition frame :: "component \<Rightarrow> component \<Rightarrow> bool" where
  "frame c c' \<longleftrightarrow> cid c' = cid c \<and> (\<forall>k. k \<notin> set data_keys \<longrightarrow> this_get c' k = this_get c k)"

text \<open>A store with nothing in it and the counter at its initial value, and a copy function
  for \<open>clone\<close> that copies one object.\<close>

definition empty_globals :: globals where
  "empty_globals = \<lparr>heap = (\<lambda>_. Plain []), next_addr = 0, nextKey = 0\<rparr>"

definition copy_object :: "nat \<Rightarrow> globals \<Rightarrow> nat \<times> globals" where
  "copy_object a g = alloc (heap g a) g"

text \<open>The elements of the array that a value refers to (none when it is no array), and
  the elements of the array that \<open>get('schema')\<close> returns.\<close>

definition array_at :: "globals \<Rightarrow> jsval \<Rightarrow> jsval list" where
  "array_at g v = (case v of Ref a \<Rightarrow> (case heap g a of Array xs \<Rightarrow> xs | _ \<Rightarrow> []) | _ \<Rightarrow> [])"

definition schema_list :: "world \<Rightarrow> jsval list" where
  "schema_list w = array_at (snd w) (getOne (fst w) ''schema'')"

text \<open>
  The wiring that the class builds. A subscription is in order when it is the created
  emitter of this component on \<open>create\<close>, its loaded emitter on \<open>load\<close>, or the closure
  of a listener on the listener's event. A component is wired when its two class fields
  hold its own arrow functions and all its subscriptions are in order; \<open>defaults_on\<close>
  says that both default emitters are subscribed, \<open>no_chain_on ev\<close> that no listener is
  subscribed for \<open>ev\<close>.
\<close>

fun sub_ok :: "nat \<Rightarrow> string \<times> handler \<Rightarrow> bool" where
  "sub_ok i (e, HFun f) =
     ((e = ''create'' \<and> f = EmitFn i ''created'') \<or> (e = ''load'' \<and> f = EmitFn i ''loaded''))"
| "sub_ok i (e, HChain (Listener ev acts) d) = (e = ev)"

definition wired :: "component \<Rightarrow> bool" where
  "wired c \<longleftrightarrow>
     this_get c ''_emitCreatedFactory'' = EmitFn (cid c) ''created'' \<and>
     this_get c ''_emitLoadedFactory'' = EmitFn (cid c) ''loaded'' \<and>
     list_all (sub_ok (cid c)) (subs c)"

definition defaults_on :: "component \<Rightarrow> bool" where
  "defaults_on c \<longleftrightarrow>
     (''create'', HFun (EmitFn (cid c) ''created'')) \<in> set (subs c) \<and>
     (''load'', HFun (EmitFn (cid c) ''loaded'')) \<in> set (subs c)"


text \<open>
  The components that the interface yields: those the constructor returns, and what
  becomes of them by a call of \<open>set\<close> that returns normally, by \<open>emitLoad\<close>, and by the
  resumption of a suspended listener invocation.
\<close>

inductive built :: "component \<Rightarrow> bool" where
  constructed: "new_Component props g = Inr (c, g') \<Longrightarrow> built c"
| after_set: "built c \<Longrightarrow> set_props props (c, g) = (None, c', g') \<Longrightarrow> built c'"
| after_load: "built c \<Longrightarrow> emitLoad c = (r, c') \<Longrightarrow> built c'"
| after_resume: "built c \<Longrightarrow> built (resume i c)"

section \<open>Emission changes no property and no subscription\<close>

lemma extends_refl: "extends c c"
  by (simp add: extends_def)

lemma extends_trans: "extends a b \<Longrightarrow> extends b c \<Longrightarrow> extends a c"
  by (auto simp: extends_def)

lemma extends_record_entry: "extends c (record_entry e c)"
  by (simp add: extends_def record_entry_def)

lemma this_get_extends: "extends c c' \<Longrightarrow> this_get c' k = this_get c k"
  by (simp add: extends_def this_get_def)

lemma emit_extends_all:
  "extends c (snd (emit d ev args c))"
  "extends c (snd (run_handlers d hs c))"
  "extends c (snd (call_fn d f c))"
  "extends c (await_action d ev' ifData outp acts c)"
proof (induction d ev args c and d hs c and d f c and d ev' ifData outp acts c
       rule: emit_run_handlers_call_fn_await_action.induct)
  case (1 ev args c)
  then show ?case by (simp add: extends_refl)
next
  case (2 d ev args c)
  then show ?case
    using extends_trans [OF extends_record_entry] by simp
next
  case (3 d c)
  then show ?case by (simp add: extends_refl)
next
  case (4 d f hs c)
  show ?case
  proof (cases "call_fn d f c")
    case (Pair r c')
    then have e1: "extends c c'" using 4(1) by simp
    show ?thesis
    proof (cases r)
      case None
      then show ?thesis using Pair e1 4(2)[OF Pair[symmetric] None]
        by (auto intro: extends_trans)
    next
      case (Some e)
      then show ?thesis using Pair e1 by simp
    qed
  qed
next
  case (5 d ev acts ifData hs c)
  then show ?case by (auto intro: extends_trans)
next
  case (6 d i m c)
  show ?case
  proof (cases "i = cid c")
    case True
    show ?thesis
    proof (cases "emit d m [Undefined] c")
      case (Pair r c')
      then have e1: "extends c c'" using 6(1)[OF True] by simp
      show ?thesis
      proof (cases r)
        case None
        then show ?thesis using True Pair e1 6(2)[OF True Pair[symmetric] None]
          by (auto intro: extends_trans)
      next
        case (Some e)
        then show ?thesis using True Pair e1 by simp
      qed
    qed
  next
    case False
    then show ?thesis by (simp add: extends_record_entry)
  qed
next
  case (9 d ev ifData outp run rest c)
  then show ?case by (simp add: extends_def record_entry_def Let_def)
next
  case (10 d ev ifData outp c)
  then show ?case by (auto simp: extends_refl)
qed (simp_all add: extends_refl)


lemma map_of_assign:
  "map_of (assign k v kvs) x = (if x = k then Some v else map_of kvs x)"
  by (induction kvs) auto

lemma map_of_assign_same: "map_of (assign k v kvs) k = Some v"
  by (simp add: map_of_assign)

lemma map_of_assign_other: "k' \<noteq> k \<Longrightarrow> map_of (assign k v kvs) k' = map_of kvs k'"
  by (simp add: map_of_assign)

lemma this_get_this_set_same: "this_get (this_set k v c) k = v"
  by (simp add: this_get_def this_set_def map_of_assign_same)

lemma this_get_this_set_other: "k' \<noteq> k \<Longrightarrow> this_get (this_set k v c) k' = this_get c k'"
  by (simp add: this_get_def this_set_def map_of_assign_other)

lemma emit_records:
  "\<exists>ys. trace (snd (emit (Suc d) ev args c)) = trace c @ Emit ev args # ys"
  using emit_extends_all(2) [of "record_entry (Emit ev args) c" d "handlers_for ev c"]
  by (auto simp: extends_def record_entry_def)

lemma emit_extends: "emit d ev args c = (r, c') \<Longrightarrow> extends c c'"
  using emit_extends_all(1) [of c d ev args] by simp

lemma u_emitChange_extends: "u_emitChange name v c = (r, c') \<Longrightarrow> extends c c'"
  unfolding u_emitChange_def
  by (auto split: prod.splits option.splits dest: emit_extends intro: extends_trans)

lemma u_emitChange_records:
  "\<exists>ys. trace (snd (u_emitChange name v c)) = trace c @ Emit name [v] # ys \<and>
        (fst (u_emitChange name v c) = None \<longrightarrow> Emit ''$change'' [Str name, v] \<in> set ys)"
proof (cases "emit max_depth name [v] c")
  case (Pair r c1)
  obtain ys where ys: "trace c1 = trace c @ Emit name [v] # ys"
    using emit_records [of "Suc (Suc (Suc 0))" name "[v]" c] Pair by (auto simp: max_depth_def)
  show ?thesis
  proof (cases r)
    case (Some e)
    then show ?thesis using Pair ys by (simp add: u_emitChange_def)
  next
    case None
    obtain zs where zs: "trace (snd (emit max_depth ''$change'' [Str name, v] c1))
        = trace c1 @ Emit ''$change'' [Str name, v] # zs"
      using emit_records [of "Suc (Suc (Suc 0))" "''$change''" "[Str name, v]" c1]
      by (auto simp: max_depth_def)
    show ?thesis using Pair None ys zs by (simp add: u_emitChange_def)
  qed
qed



section \<open>Identity keys\<close>

lemma frame_refl: "frame c c"
  by (simp add: frame_def)

lemma frame_trans: "frame a b \<Longrightarrow> frame b c \<Longrightarrow> frame a c"
  by (simp add: frame_def)

lemma extends_frame: "extends c c' \<Longrightarrow> frame c c'"
  by (simp add: frame_def extends_def this_get_def)

lemma subs_frame: "frame c (c\<lparr>subs := x\<rparr>)"
  by (simp add: frame_def this_get_def)

lemma u_set_frame:
  assumes "u_set name v c = (r, c')" and "''_'' @ name \<in> set data_keys"
  shows "frame c c'"
proof (cases "this_get c (''_'' @ name) \<noteq> v \<and> (this_get c (''_'' @ name) \<noteq> Undefined \<or> v \<noteq> Null)")
  case True
  then have "u_emitChange name v (this_set (''_'' @ name) v c) = (r, c')"
    using assms(1) by (simp add: u_set_def)
  then have "frame (this_set (''_'' @ name) v c) c'"
    by (rule extends_frame [OF u_emitChange_extends])
  moreover have "frame c (this_set (''_'' @ name) v c)"
  proof -
    have "this_get (this_set (''_'' @ name) v c) k = this_get c k" if "k \<notin> set data_keys" for k
      using that assms(2) this_get_this_set_other [of k "''_'' @ name" v c] by auto
    then show ?thesis by (simp add: frame_def this_set_def)
  qed
  ultimately show ?thesis by (blast intro: frame_trans)
next
  case False
  then show ?thesis using assms(1) by (auto simp: u_set_def frame_refl)
qed

lemma u_setIfUndefinedProp_frame:
  assumes "u_setIfUndefinedProp props name (c, g) = (r, c', g')" and "''_'' @ name \<in> set data_keys"
  shows "frame c c' \<and> g' = g"
  using assms
  by (auto simp: u_setIfUndefinedProp_def frame_refl split: option.splits if_splits prod.splits
           dest: u_set_frame)

lemma subscribe_all_frame: "frame c (subscribe_all ls ifData c)"
proof (induction ls ifData c rule: subscribe_all.induct)
  case (1 ifData c)
  then show ?case by (simp add: frame_refl)
next
  case (2 ev acts ls ifData c)
  have "frame c (on ev (HChain (Listener ev acts) ifData) c)"
    by (simp add: on_def subs_frame)
  then show ?case using 2 by (auto intro: frame_trans)
qed

lemma removeListener_frame: "frame c (removeListener ev f c)"
  by (simp add: removeListener_def subs_frame)

lemma on_frame: "frame c (on ev h c)"
  by (simp add: on_def subs_frame)

lemma u_setListeners_frame:
  assumes "u_setListeners props (c, g) = (r, c', g')"
  shows "frame c c' \<and> g' = g"
proof -
  let ?c1 = "removeListener ''create'' (this_get c ''_emitCreatedFactory'') c"
  let ?c2 = "removeListener ''load'' (this_get ?c1 ''_emitLoadedFactory'') ?c1"
  have f2: "frame c ?c2"
    by (blast intro: frame_trans removeListener_frame)
  have l: "''_'' @ ''listeners'' \<in> set data_keys" by (simp add: data_keys_def)
  show ?thesis
    using assms f2
    by (auto simp: u_setListeners_def Let_def 
          split: option.splits if_splits prod.splits jsval.splits jsobj.splits list.splits
          dest!: u_set_frame [OF _ l]
          intro: frame_trans [OF _ on_frame] frame_trans [OF _ subscribe_all_frame] frame_trans)
qed


lemma u_push_frame:
  assumes "u_push name v (c, g) = (r, c', g')" and "''_'' @ name \<in> set data_keys"
  shows "frame c c' \<and> nextKey g' = nextKey g"
  using assms
  by (auto simp: u_push_def alloc_def Let_def
          split: jsval.splits jsobj.splits prod.splits dest: u_set_frame)

lemma set_props_frame:
  assumes "set_props props (c, g) = (r, c', g')"
  shows "frame c c' \<and> nextKey g' = nextKey g"
proof (cases "typeof props \<noteq> ''object''")
  case True
  then show ?thesis using assms by (auto simp: set_props_def frame_refl)
next
  case False
  have k: "''_'' @ ''name'' \<in> set data_keys" "''_'' @ ''passed'' \<in> set data_keys"
     "''_'' @ ''schema'' \<in> set data_keys"
    by (simp_all add: data_keys_def)
  obtain r1 c1 g1 where s1: "u_setName props (c, g) = (r1, c1, g1)"
    by (metis prod_cases3)
  have f1: "frame c c1 \<and> g1 = g"
    using s1 u_setIfUndefinedProp_frame [OF _ k(1)] by (simp add: u_setName_def)
  obtain r2 c2 g2 where s2: "u_setListeners props (c1, g1) = (r2, c2, g2)"
    by (metis prod_cases3)
  have f2: "frame c1 c2 \<and> g2 = g1"
    using s2 u_setListeners_frame by simp
  obtain r3 c3 g3 where s3: "u_setPassed props (c2, g2) = (r3, c3, g3)"
    by (metis prod_cases3)
  have f3: "frame c2 c3 \<and> g3 = g2"
    using s3 u_setIfUndefinedProp_frame [OF _ k(2)] by (simp add: u_setPassed_def)
  have f13: "frame c c2" "frame c c3"
    using f1 f2 f3 by (blast intro: frame_trans)+
  show ?thesis
    using assms False s1 s2 s3 f1 f2 f3 f13 
    by (auto simp: set_props_def split: option.splits if_splits
             dest!: u_push_frame [OF _ k(3)] intro: frame_trans)
qed


lemma u_create_frame:
  assumes "u_create (c, g) = (r, c', g')"
  shows "frame c c' \<and> nextKey g' = nextKey g"
proof -
  obtain sc g1 where a: "u_getComponentMSONSchema g = (sc, g1)" by (cases "u_getComponentMSONSchema g")
  then have n1: "nextKey g1 = nextKey g"
    by (auto simp: u_getComponentMSONSchema_def alloc_def Let_def)
  obtain p g2 where b: "alloc (Plain [(''schema'', sc)]) g1 = (p, g2)" by (simp add: alloc_def)
  then have n2: "nextKey g2 = nextKey g1" by (auto simp: alloc_def)
  have "set_props (Ref p) (c, g2) = (r, c', g')"
    using assms a b by (simp add: u_create_def)
  then show ?thesis using set_props_frame n1 n2 by fastforce
qed

lemma new_instance_key:
  "getKey (fst (new_instance g)) = Undefined" "nextKey (snd (new_instance g)) = nextKey g"
  by (simp_all add: new_instance_def alloc_def Let_def getKey_def this_get_def component_methods_def)

lemma frame_key: "frame c c' \<Longrightarrow> getKey c' = getKey c"
  by (simp add: frame_def getKey_def data_keys_def)

lemma new_Component_Inr:
  assumes "new_Component props g = Inr (c, g')"
  shows "\<exists>c0. getKey c0 = Undefined \<and> Emit ''create'' [Undefined] \<in> set (trace c0) \<and>
           c = this_set ''_key'' (Num (int (nextKey g))) c0 \<and>
           nextKey g' = (if nextKey g < 2 ^ 53 then Suc (nextKey g) else nextKey g)"
proof -
  obtain c0 g0 where i: "new_instance g = (c0, g0)" by (cases "new_instance g")
  have k0: "getKey c0 = Undefined" "nextKey g0 = nextKey g"
    using new_instance_key [of g] i by simp_all
  obtain r1 c1 g1 where s1:
    "(if truthy props then u_setName props (new_instance g) else (None, new_instance g)) = (r1, c1, g1)"
    by (metis prod_cases3)
  have n: "''_'' @ ''name'' \<in> set data_keys" by (simp add: data_keys_def)
  have f1: "frame c0 c1 \<and> g1 = g0"
    using s1 i u_setIfUndefinedProp_frame [OF _ n, of props c0 g0 r1 c1 g1]
    by (auto simp: u_setName_def frame_refl split: if_splits)
  have r1: "r1 = None" using assms s1 by (auto simp: new_Component_def split: option.splits)
  obtain r2 c2 g2 where s2: "u_create (c1, g1) = (r2, c2, g2)" by (metis prod_cases3)
  have f2: "frame c1 c2 \<and> nextKey g2 = nextKey g1" using s2 by (rule u_create_frame)
  have r2: "r2 = None" using assms s1 r1 s2 by (auto simp: new_Component_def split: option.splits)
  obtain r3 c3 g3 where s3:
    "(if props = Undefined
      then (let (p, g2') = alloc (Plain []) g2 in set_props (Ref p) (c2, g2'))
      else set_props props (c2, g2)) = (r3, c3, g3)"
    by (metis prod_cases3)
  have f3: "frame c2 c3 \<and> nextKey g3 = nextKey g2"
  proof (cases "props = Undefined")
    case True
    then have "set_props (Ref (next_addr g2)) (c2, snd (alloc (Plain []) g2)) = (r3, c3, g3)"
      using s3 by (simp add: alloc_def)
    then show ?thesis using set_props_frame [of _ c2 "snd (alloc (Plain []) g2)" r3 c3 g3]
      by (simp add: alloc_def)
  next
    case False
    then show ?thesis using s3 set_props_frame by simp
  qed
  have r3: "r3 = None"
    using assms s1 r1 s2 r2 s3 by (auto simp: new_Component_def split: option.splits)
  obtain r4 c4 where s4: "u_emitChange ''create'' Undefined c3 = (r4, c4)"
    by (cases "u_emitChange ''create'' Undefined c3")
  have r4: "r4 = None"
    using assms s1 r1 s2 r2 s3 r3 s4 by (auto simp: new_Component_def split: option.splits)
  have f4: "frame c3 c4" using s4 by (rule extends_frame [OF u_emitChange_extends])
  have t4: "Emit ''create'' [Undefined] \<in> set (trace c4)"
    using u_emitChange_records [of "''create''" Undefined c3] s4 by auto
  have "frame c0 c4" using f1 f2 f3 f4 by (blast intro: frame_trans)
  then have k4: "getKey c4 = Undefined" using k0 frame_key by simp
  have n4: "nextKey g3 = nextKey g" using f1 f2 f3 k0 by simp
  have "(let (k, g4) = getNextKey g3 in Inr (this_set ''_key'' k c4, g4)) = (Inr (c, g') :: error + world)"
    using assms s1 r1 s2 r2 s3 r3 s4 r4 by (simp add: new_Component_def Let_def)
  then have "c = this_set ''_key'' (Num (int (nextKey g))) c4 \<and>
      nextKey g' = (if nextKey g < 2 ^ 53 then Suc (nextKey g) else nextKey g)"
    using n4 by (auto simp: getNextKey_def)
  then show ?thesis using k4 t4 by blast
qed


lemma cloneDeep_own_keeps:
  "map_of kvs k = Some (Num n) \<Longrightarrow> map_of (fst (cloneDeep_own dc kvs g)) k = Some (Num n)"
proof (induction kvs arbitrary: g)
  case Nil
  then show ?case by simp
next
  case (Cons kv kvs)
  obtain k' v' where kv: "kv = (k', v')" by (cases kv)
  obtain v'' g1 where v: "cloneDeep_val dc v' g = (v'', g1)" by (cases "cloneDeep_val dc v' g")
  obtain kvs' g2 where r: "cloneDeep_own dc kvs g1 = (kvs', g2)" by (cases "cloneDeep_own dc kvs g1")
  show ?case
  proof (cases "k' = k")
    case True
    then have "v' = Num n" using Cons.prems kv by simp
    then have "v'' = Num n" using v by simp
    then show ?thesis using kv v r True by simp
  next
    case False
    then have "map_of kvs k = Some (Num n)" using Cons.prems kv by simp
    from Cons.IH [OF this, of g1] show ?thesis using kv v r False by simp
  qed
qed

lemma clone_key_number:
  "getKey c = Num k \<Longrightarrow> getKey (fst (clone dc (c, g))) = Num k"
proof -
  assume a: "getKey c = Num k"
  then have m: "map_of (own c) ''_key'' = Some (Num k)"
    by (auto simp: getKey_def this_get_def split: option.splits if_splits)
  obtain kvs g2 where r: "cloneDeep_own dc (own c) (snd (alloc (Plain []) g)) = (kvs, g2)"
    by (cases "cloneDeep_own dc (own c) (snd (alloc (Plain []) g))")
  have "map_of kvs ''_key'' = Some (Num k)"
    using cloneDeep_own_keeps [OF m, of dc "snd (alloc (Plain []) g)"] r by simp
  then show ?thesis
    using r by (simp add: clone_def removeAllListeners_def alloc_def Let_def getKey_def
        this_get_def this_set_def map_of_assign)
qed

subsection \<open>A first component, built with no argument in the empty store\<close>

lemmas eval_defs = new_Component_def new_instance_def u_create_def set_props_def u_setName_def
  u_setPassed_def u_setIfUndefinedProp_def u_setListeners_def u_push_def u_set_def u_get_def
  u_emitChange_def u_getComponentMSONSchema_def alloc_def getNextKey_def this_get_def this_set_def
  removeListener_def on_def handlers_for_def record_entry_def max_depth_def lookup_def
  component_methods_def empty_globals_def Let_def

lemma first_component: "new_Component Undefined empty_globals = Inr (projr (new_Component Undefined empty_globals))"
proof -
  have "\<not> isl (new_Component Undefined empty_globals)" by (simp add: eval_defs)
  then show ?thesis by simp
qed

lemma first_component_key: "getKey (fst (projr (new_Component Undefined empty_globals))) = Num 0"
  by (simp add: eval_defs getKey_def)





section \<open>The allow-list of \<open>get\<close>\<close>

lemma set_assign: "set (assign k v kvs) \<subseteq> insert (k, v) (set kvs)"
  by (induction kvs) (auto split: if_splits)

lemma snapshot_entries:
  assumes "\<forall>(n, v) \<in> set acc. v = getOne c n"
  shows "\<forall>(n, v) \<in> set (foldl (\<lambda>values name. assign (f name) (getOne c (f name)) values) acc ks).
           v = getOne c n"
  using assms
proof (induction ks arbitrary: acc)
  case Nil
  then show ?case by simp
next
  case (Cons k ks)
  have "\<forall>(n, v) \<in> set (assign (f k) (getOne c (f k)) acc). v = getOne c n"
    using Cons.prems set_assign [of "f k" "getOne c (f k)" acc] by auto
  from Cons.IH [OF this] show ?case by simp
qed

lemma get_all_entries: "(n, v) \<in> set (get_all c) \<Longrightarrow> v = getOne c n"
  using snapshot_entries [of "[]" c replace_underscore "map fst (own c)"]
  by (auto simp: get_all_def)


text \<open>
  C6. In the snapshot that \<open>get\<close> returns when it is called with no
  argument, every name outside the allow-list \<open>name\<close>, \<open>listeners\<close>, \<open>passed\<close>,
  \<open>schema\<close> has the value \<open>undefined\<close>, and a name of the allow-list has the value that
  \<open>_get\<close> reads, however many other fields the instance has. (The names of the other
  fields are keys of the snapshot: see \<open>get_surfaces_other_names\<close>.)
\<close>

theorem get_hides_values:
  "get_props NoNames c = Snapshot kvs \<Longrightarrow> (n, v) \<in> set kvs \<Longrightarrow>
     (n \<notin> set allowed_names \<longrightarrow> v = Undefined) \<and> (n \<in> set allowed_names \<longrightarrow> v = u_get c n)"
proof -
  assume "get_props NoNames c = Snapshot kvs" and m: "(n, v) \<in> set kvs"
  then have "kvs = get_all c" by (simp add: get_props_def)
  then have "v = getOne c n" using m get_all_entries by simp
  then show ?thesis by (simp add: getOne_def u_getIfAllowed_def)
qed

text \<open>The snapshot of a newly built component has the key \<open>key\<close>, which is not in the
  allow-list.\<close>

theorem get_surfaces_other_names:
  "(''key'', Undefined) \<in> set (get_all (fst (projr (new_Component Undefined empty_globals)))) \<and>
   get_props NoNames (fst (projr (new_Component Undefined empty_globals)))
     = Snapshot (get_all (fst (projr (new_Component Undefined empty_globals)))) \<and>
   ''key'' \<notin> set allowed_names"
  by (simp add: eval_defs get_props_def get_all_def getOne_def u_getIfAllowed_def allowed_names_def)

theorem get_hides_values_witness:
  "get_props NoNames (fst (projr (new_Component Undefined empty_globals)))
     = Snapshot (get_all (fst (projr (new_Component Undefined empty_globals)))) \<and>
   (''key'', Undefined) \<in> set (get_all (fst (projr (new_Component Undefined empty_globals)))) \<and>
   ''key'' \<notin> set allowed_names \<and>
   (''schema'', Ref 9) \<in> set (get_all (fst (projr (new_Component Undefined empty_globals)))) \<and>
   u_get (fst (projr (new_Component Undefined empty_globals))) ''schema'' = Ref 9"
proof -
  let ?c = "fst (projr (new_Component Undefined empty_globals))"
  have a: "get_props NoNames ?c = Snapshot (get_all ?c)" by (simp add: get_props_def)
  have b: "(''key'', Undefined) \<in> set (get_all ?c)" "(''schema'', Ref 9) \<in> set (get_all ?c)"
    by (simp_all add: eval_defs get_all_def getOne_def u_getIfAllowed_def allowed_names_def)
  have c: "''key'' \<notin> set allowed_names" "''schema'' \<in> set allowed_names"
    by (simp_all add: allowed_names_def)
  show ?thesis
    using get_hides_values [OF a b(1)] get_hides_values [OF a b(2)] a b c by simp
qed

section \<open>The argument of \<open>set\<close>\<close>











section \<open>Accumulation of schema fragments\<close>

lemma u_set_other:
  assumes "u_set name v c = (r, c')" and "k \<noteq> ''_'' @ name"
  shows "this_get c' k = this_get c k"
proof (cases "this_get c (''_'' @ name) \<noteq> v \<and> (this_get c (''_'' @ name) \<noteq> Undefined \<or> v \<noteq> Null)")
  case True
  then have "u_emitChange name v (this_set (''_'' @ name) v c) = (r, c')"
    using assms(1) by (simp add: u_set_def)
  then have "this_get c' k = this_get (this_set (''_'' @ name) v c) k"
    by (rule this_get_extends [OF u_emitChange_extends])
  then show ?thesis using assms(2) by (simp add: this_get_this_set_other)
next
  case False
  then show ?thesis using assms(1) by (auto simp: u_set_def)
qed

lemma u_set_stores:
  assumes "u_set name v c = (r, c')" and "v \<noteq> Null"
  shows "this_get c' (''_'' @ name) = v"
proof (cases "this_get c (''_'' @ name) = v")
  case True
  then show ?thesis using assms(1) by (auto simp: u_set_def)
next
  case False
  then have "u_emitChange name v (this_set (''_'' @ name) v c) = (r, c')"
    using assms by (simp add: u_set_def)
  then have "this_get c' (''_'' @ name) = this_get (this_set (''_'' @ name) v c) (''_'' @ name)"
    by (rule this_get_extends [OF u_emitChange_extends])
  then show ?thesis by (simp add: this_get_this_set_same)
qed

lemma u_setIfUndefinedProp_other:
  assumes "u_setIfUndefinedProp props name (c, g) = (r, c', g')" and "k \<noteq> ''_'' @ name"
  shows "this_get c' k = this_get c k \<and> g' = g"
  using assms
  by (auto simp: u_setIfUndefinedProp_def split: option.splits if_splits prod.splits
           dest: u_set_other)

lemma this_get_subs: "this_get (c\<lparr>subs := x\<rparr>) k = this_get c k"
  by (simp add: this_get_def)

lemma this_get_subscribe_all: "this_get (subscribe_all ls ifData c) k = this_get c k"
  by (induction ls ifData c rule: subscribe_all.induct) (simp_all add: on_def this_get_subs)

lemma u_setListeners_other:
  assumes "u_setListeners props (c, g) = (r, c', g')" and "k \<noteq> ''_listeners''"
  shows "this_get c' k = this_get c k \<and> g' = g"
proof -
  have l: "k \<noteq> ''_'' @ ''listeners''" using assms(2) by simp
  show ?thesis
    using assms(1)
    by (auto simp: u_setListeners_def Let_def on_def removeListener_def this_get_subs
          this_get_subscribe_all
          split: option.splits if_splits prod.splits jsval.splits jsobj.splits list.splits
          dest!: u_set_other [OF _ l])
qed

lemma set_props_cases:
  assumes "set_props props (c, g) = (r, c', g')"
  shows "(this_get c' ''_schema'' = this_get c ''_schema'' \<and> g' = g \<and>
            (r = None \<longrightarrow> props_get (heap g) props ''schema'' = Some Undefined)) \<or>
         (\<exists>c3 sc. this_get c3 ''_schema'' = this_get c ''_schema'' \<and>
            props_get (heap g) props ''schema'' = Some sc \<and> sc \<noteq> Undefined \<and>
            u_push ''schema'' sc (c3, g) = (r, c', g'))"
proof (cases "typeof props \<noteq> ''object''")
  case True
  then show ?thesis using assms by (auto simp: set_props_def)
next
  case False
  obtain r1 c1 g1 where s1: "u_setName props (c, g) = (r1, c1, g1)"
    by (metis prod_cases3)
  have f1: "this_get c1 ''_schema'' = this_get c ''_schema'' \<and> g1 = g"
    using s1 u_setIfUndefinedProp_other [of props "''name''" c g r1 c1 g1 "''_schema''"]
    by (simp add: u_setName_def)
  obtain r2 c2 g2 where s2: "u_setListeners props (c1, g1) = (r2, c2, g2)"
    by (metis prod_cases3)
  have f2: "this_get c2 ''_schema'' = this_get c1 ''_schema'' \<and> g2 = g1"
    using s2 u_setListeners_other [of props c1 g1 r2 c2 g2 "''_schema''"] by simp
  obtain r3 c3 g3 where s3: "u_setPassed props (c2, g2) = (r3, c3, g3)"
    by (metis prod_cases3)
  have f3: "this_get c3 ''_schema'' = this_get c2 ''_schema'' \<and> g3 = g2"
    using s3 u_setIfUndefinedProp_other [of props "''passed''" c2 g2 r3 c3 g3 "''_schema''"]
    by (simp add: u_setPassed_def)
  show ?thesis
    using assms False s1 s2 s3 f1 f2 f3
    by (auto simp: set_props_def split: option.splits if_splits)
qed

lemma u_get_schema: "u_get c ''schema'' = (if this_get c ''_schema'' = Undefined then Null else this_get c ''_schema'')"
  by (simp add: u_get_def)

lemma u_push_schema:
  assumes "u_push ''schema'' v (c, g) = (r, c', g')"
  shows "\<exists>a. this_get c' ''_schema'' = Ref a \<and>
            heap g' a = Array (array_at g (u_get c ''schema'') @ [v]) \<and>
            (\<forall>b. b \<noteq> a \<longrightarrow> heap g' b = heap g b) \<and>
            (\<forall>a0 xs. this_get c ''_schema'' = Ref a0 \<and> heap g a0 = Array xs \<longrightarrow> a = a0)"
proof -
  have st: "u_set ''schema'' (Ref a) c = (r0, c0) \<Longrightarrow> this_get c0 ''_schema'' = Ref a" for a r0 c0
    using u_set_stores [of "''schema''" "Ref a" c r0 c0] by simp
  show ?thesis
    using assms
    by (auto simp: u_push_def alloc_def Let_def array_at_def u_get_schema
          split: jsval.splits jsobj.splits prod.splits if_splits dest!: st)
qed


lemma u_push_fresh:
  assumes "u_push ''schema'' v (c, g) = (r, c', g')" and "this_get c ''_schema'' = Undefined"
  shows "this_get c' ''_schema'' = Ref (next_addr g) \<and>
         heap g' = (heap g)(next_addr g := Array [v]) \<and> next_addr g' = Suc (next_addr g)"
proof -
  have st: "u_set ''schema'' (Ref a) c = (r0, c0) \<Longrightarrow> this_get c0 ''_schema'' = Ref a" for a r0 c0
    using u_set_stores [of "''schema''" "Ref a" c r0 c0] by simp
  show ?thesis
    using assms
    by (auto simp: u_push_def alloc_def Let_def u_get_schema split: prod.splits dest!: st)
qed

lemma schema_list_eq:
  "schema_list (c, g) = array_at g (u_get c ''schema'')"
  by (simp add: schema_list_def getOne_def u_getIfAllowed_def allowed_names_def)

lemma u_get_schema_cong:
  "this_get c' ''_schema'' = this_get c ''_schema'' \<Longrightarrow> u_get c' ''schema'' = u_get c ''schema''"
  by (simp add: u_get_schema)

lemma set_props_push:
  assumes "set_props p (c, g) = (None, c', g')"
    and "props_get (heap g) p ''schema'' = Some A" and "A \<noteq> Undefined"
  shows "\<exists>a. this_get c' ''_schema'' = Ref a \<and> heap g' a = Array (schema_list (c, g) @ [A])"
proof -
  from set_props_cases [OF assms(1)] assms(2,3)
  obtain c3 where c3: "this_get c3 ''_schema'' = this_get c ''_schema''"
      "u_push ''schema'' A (c3, g) = (None, c', g')"
    by auto
  from u_push_schema [OF c3(2)] obtain a where
    "this_get c' ''_schema'' = Ref a" "heap g' a = Array (array_at g (u_get c3 ''schema'') @ [A])"
    by blast
  then show ?thesis
    using u_get_schema_cong [OF c3(1)] by (auto simp: schema_list_eq)
qed

lemma set_props_keeps_array:
  assumes "set_props p (c, g) = (r, c', g')"
    and "this_get c ''_schema'' = Ref a" and "heap g a = Array xs"
  shows "this_get c' ''_schema'' = Ref a \<and> (\<exists>ys. heap g' a = Array (xs @ ys)) \<and>
         (\<forall>b. b \<noteq> a \<longrightarrow> heap g' b = heap g b)"
proof -
  from set_props_cases [OF assms(1)]
  show ?thesis
  proof
    assume "this_get c' ''_schema'' = this_get c ''_schema'' \<and> g' = g \<and>
            (r = None \<longrightarrow> props_get (heap g) p ''schema'' = Some Undefined)"
    then show ?thesis using assms(2,3) by simp
  next
    assume "\<exists>c3 sc. this_get c3 ''_schema'' = this_get c ''_schema'' \<and>
            props_get (heap g) p ''schema'' = Some sc \<and> sc \<noteq> Undefined \<and>
            u_push ''schema'' sc (c3, g) = (r, c', g')"
    then obtain c3 sc where c3: "this_get c3 ''_schema'' = Ref a"
        "u_push ''schema'' sc (c3, g) = (r, c', g')"
      using assms(2) by auto
    from u_push_schema [OF c3(2)] obtain a' where a':
      "this_get c' ''_schema'' = Ref a'"
      "heap g' a' = Array (array_at g (u_get c3 ''schema'') @ [sc])"
      "\<forall>b. b \<noteq> a' \<longrightarrow> heap g' b = heap g b"
      "\<forall>a0 xs. this_get c3 ''_schema'' = Ref a0 \<and> heap g a0 = Array xs \<longrightarrow> a' = a0"
      by blast
    have "a' = a" using a'(4) c3(1) assms(3) by blast
    moreover have "array_at g (u_get c3 ''schema'') = xs"
      using c3(1) assms(3) by (simp add: array_at_def u_get_schema)
    ultimately show ?thesis using a' by auto
  qed
qed

lemma u_create_result:
  assumes "u_create (c, g) = (None, c', g')" and "this_get c ''_schema'' = Undefined"
  shows "this_get c' ''_schema'' = Ref (next_addr g + 7) \<and>
         heap g' (next_addr g + 7) = Array [Ref (next_addr g + 5)] \<and>
         heap g' (next_addr g + 5) =
           Plain [(''component'', Str ''Form''), (''fields'', Ref (next_addr g + 4))] \<and>
         next_addr g' = next_addr g + 8"
proof -
  define g2 where "g2 = snd (alloc (Plain [(''schema'', Ref (next_addr g + 5))])
                               (snd (u_getComponentMSONSchema g)))"
  have g2: "next_addr g2 = next_addr g + 7"
     "heap g2 (next_addr g + 6) = Plain [(''schema'', Ref (next_addr g + 5))]"
     "heap g2 (next_addr g + 5) =
           Plain [(''component'', Str ''Form''), (''fields'', Ref (next_addr g + 4))]"
    by (simp_all add: g2_def u_getComponentMSONSchema_def alloc_def Let_def eval_nat_numeral)
  have s: "set_props (Ref (next_addr g + 6)) (c, g2) = (None, c', g')"
    using assms(1)
    by (simp add: u_create_def g2_def u_getComponentMSONSchema_def alloc_def Let_def eval_nat_numeral)
  have pg: "props_get (heap g2) (Ref (next_addr g + 6)) ''schema'' = Some (Ref (next_addr g + 5))"
    using g2(2) by (simp add: lookup_def)
  from set_props_cases [OF s] pg
  obtain c3 where c3: "this_get c3 ''_schema'' = this_get c ''_schema''"
      "u_push ''schema'' (Ref (next_addr g + 5)) (c3, g2) = (None, c', g')"
    by auto
  have "this_get c3 ''_schema'' = Undefined" using c3(1) assms(2) by simp
  from u_push_fresh [OF c3(2) this] show ?thesis
    using g2 by simp
qed


lemma new_instance_schema:
  "this_get (fst (new_instance g)) ''_schema'' = Undefined"
  "next_addr (snd (new_instance g)) = next_addr g + 2"
  by (simp_all add: new_instance_def alloc_def Let_def this_get_def component_methods_def)

lemma new_Component_schema:
  assumes "new_Component props g = Inr (c, g')"
  shows "\<exists>a xs. this_get c ''_schema'' = Ref a \<and>
           heap g' a = Array (Ref (next_addr g + 7) # xs) \<and>
           heap g' (next_addr g + 7) =
             Plain [(''component'', Str ''Form''), (''fields'', Ref (next_addr g + 6))]"
proof -
  let ?n = "next_addr g"
  obtain c0 g0 where i: "new_instance g = (c0, g0)" by (cases "new_instance g")
  have k0: "this_get c0 ''_schema'' = Undefined" "next_addr g0 = ?n + 2"
    using new_instance_schema [of g] i by simp_all
  obtain r1 c1 g1 where s1:
    "(if truthy props then u_setName props (new_instance g) else (None, new_instance g)) = (r1, c1, g1)"
    by (metis prod_cases3)
  have f1: "this_get c1 ''_schema'' = this_get c0 ''_schema'' \<and> g1 = g0"
    using s1 i u_setIfUndefinedProp_other [of props "''name''" c0 g0 r1 c1 g1 "''_schema''"]
    by (auto simp: u_setName_def split: if_splits)
  have r1: "r1 = None" using assms s1 by (auto simp: new_Component_def split: option.splits)
  obtain r2 c2 g2 where s2: "u_create (c1, g1) = (r2, c2, g2)" by (metis prod_cases3)
  have r2: "r2 = None" using assms s1 r1 s2 by (auto simp: new_Component_def split: option.splits)
  have "u_create (c1, g0) = (None, c2, g2)" "this_get c1 ''_schema'' = Undefined"
    using s2 r2 f1 k0 by simp_all
  from u_create_result [OF this]
  have f2: "this_get c2 ''_schema'' = Ref (?n + 9)" "heap g2 (?n + 9) = Array [Ref (?n + 7)]"
     "heap g2 (?n + 7) = Plain [(''component'', Str ''Form''), (''fields'', Ref (?n + 6))]"
     "next_addr g2 = ?n + 10"
    using k0(2) by (simp_all add: add.commute add.left_commute)
  obtain r3 c3 g3 where s3:
    "(if props = Undefined
      then (let (p, g2') = alloc (Plain []) g2 in set_props (Ref p) (c2, g2'))
      else set_props props (c2, g2)) = (r3, c3, g3)"
    by (metis prod_cases3)
  have f3: "this_get c3 ''_schema'' = Ref (?n + 9) \<and> (\<exists>ys. heap g3 (?n + 9) = Array ([Ref (?n + 7)] @ ys)) \<and>
         heap g3 (?n + 7) = Plain [(''component'', Str ''Form''), (''fields'', Ref (?n + 6))]"
  proof (cases "props = Undefined")
    case True
    let ?g = "snd (alloc (Plain []) g2)"
    have h: "heap ?g (?n + 9) = Array [Ref (?n + 7)]"
      "heap ?g (?n + 7) = Plain [(''component'', Str ''Form''), (''fields'', Ref (?n + 6))]"
      using f2 by (simp_all add: alloc_def)
    have "set_props (Ref (next_addr g2)) (c2, ?g) = (r3, c3, g3)"
      using s3 True by (simp add: alloc_def)
    from set_props_keeps_array [OF this f2(1) h(1)] show ?thesis using h(2) by simp
  next
    case False
    then have "set_props props (c2, g2) = (r3, c3, g3)" using s3 by simp
    from set_props_keeps_array [OF this f2(1) f2(2)] show ?thesis using f2(3) by simp
  qed
  have r3: "r3 = None"
    using assms s1 r1 s2 r2 s3 by (auto simp: new_Component_def split: option.splits)
  obtain r4 c4 where s4: "u_emitChange ''create'' Undefined c3 = (r4, c4)"
    by (cases "u_emitChange ''create'' Undefined c3")
  have r4: "r4 = None"
    using assms s1 r1 s2 r2 s3 r3 s4 by (auto simp: new_Component_def split: option.splits)
  have f4: "this_get c4 ''_schema'' = this_get c3 ''_schema''"
    using s4 by (rule this_get_extends [OF u_emitChange_extends])
  have "(let (k, g4) = getNextKey g3 in Inr (this_set ''_key'' k c4, g4)) = (Inr (c, g') :: error + world)"
    using assms s1 r1 s2 r2 s3 r3 s4 r4 by (simp add: new_Component_def Let_def)
  then have "c = this_set ''_key'' (Num (int (nextKey g3))) c4 \<and> heap g' = heap g3"
    by (auto simp: getNextKey_def)
  then have "this_get c ''_schema'' = this_get c4 ''_schema'' \<and> heap g' = heap g3"
    by (simp add: this_get_this_set_other)
  then show ?thesis using f3 f4 by auto
qed

text \<open>
  C7. Setting \<open>schema\<close> to \<open>A\<close> and then to \<open>B\<close> makes \<open>get('schema')\<close> the array of the
  earlier fragments followed by \<open>A\<close> and \<open>B\<close>; and after construction the first element of
  that array is the fragment of the base type itself.
\<close>

theorem schema_accumulates:
  "(set_props p1 (c, g) = (None, c1, g1) \<and> props_get (heap g) p1 ''schema'' = Some A \<and>
    A \<noteq> Undefined \<and> set_props p2 (c1, g1) = (None, c2, g2) \<and>
    props_get (heap g1) p2 ''schema'' = Some B \<and> B \<noteq> Undefined \<longrightarrow>
      (\<exists>a. get_props (Name ''schema'') c2 = Single (Ref a) \<and>
           heap g2 a = Array (schema_list (c, g) @ [A, B]))) \<and>
   (new_Component props g0 = Inr (c', g') \<longrightarrow>
      (\<exists>s fs xs. schema_list (c', g') = Ref s # xs \<and>
         heap g' s = Plain [(''component'', Str ''Form''), (''fields'', Ref fs)]))"
proof (intro conjI impI)
  assume a: "set_props p1 (c, g) = (None, c1, g1) \<and> props_get (heap g) p1 ''schema'' = Some A \<and>
    A \<noteq> Undefined \<and> set_props p2 (c1, g1) = (None, c2, g2) \<and>
    props_get (heap g1) p2 ''schema'' = Some B \<and> B \<noteq> Undefined"
  from a set_props_push [of p1 c g c1 g1 A] obtain a1 where
    a1: "this_get c1 ''_schema'' = Ref a1" "heap g1 a1 = Array (schema_list (c, g) @ [A])"
    by blast
  have l1: "schema_list (c1, g1) = schema_list (c, g) @ [A]"
    using a1 by (simp add: schema_list_eq u_get_schema array_at_def)
  from a set_props_push [of p2 c1 g1 c2 g2 B] obtain a2 where
    a2: "this_get c2 ''_schema'' = Ref a2" "heap g2 a2 = Array (schema_list (c1, g1) @ [B])"
    by blast
  have "get_props (Name ''schema'') c2 = Single (Ref a2)"
    using a2(1) by (simp add: get_props_def getOne_def u_getIfAllowed_def allowed_names_def
        u_get_schema)
  then show "\<exists>a. get_props (Name ''schema'') c2 = Single (Ref a) \<and>
           heap g2 a = Array (schema_list (c, g) @ [A, B])"
    using a2(2) l1 by simp
next
  assume "new_Component props g0 = Inr (c', g')"
  from new_Component_schema [OF this] obtain a xs where
    "this_get c' ''_schema'' = Ref a" "heap g' a = Array (Ref (next_addr g0 + 7) # xs)"
    "heap g' (next_addr g0 + 7) =
             Plain [(''component'', Str ''Form''), (''fields'', Ref (next_addr g0 + 6))]"
    by blast
  then show "\<exists>s fs xs. schema_list (c', g') = Ref s # xs \<and>
         heap g' s = Plain [(''component'', Str ''Form''), (''fields'', Ref fs)]"
    by (auto simp: schema_list_eq u_get_schema array_at_def)
qed

theorem schema_accumulates_witness:
  "(\<exists>a. get_props (Name ''schema'')
          (fst (snd (set_props (Ref 12) (snd (set_props (Ref 11)
             (fst (projr (new_Component Undefined empty_globals)),
              snd (alloc (Plain [(''schema'', Str ''B'')])
                (snd (alloc (Plain [(''schema'', Str ''A'')])
                  (snd (projr (new_Component Undefined empty_globals))))))))))))
        = Single (Ref a) \<and>
        heap (snd (snd (set_props (Ref 12) (snd (set_props (Ref 11)
             (fst (projr (new_Component Undefined empty_globals)),
              snd (alloc (Plain [(''schema'', Str ''B'')])
                (snd (alloc (Plain [(''schema'', Str ''A'')])
                  (snd (projr (new_Component Undefined empty_globals)))))))))))) a
        = Array ([Ref 7] @ [Str ''A'', Str ''B''])) \<and>
   (\<exists>s fs xs. schema_list (projr (new_Component Undefined empty_globals)) = Ref s # xs \<and>
      heap (snd (projr (new_Component Undefined empty_globals))) s
        = Plain [(''component'', Str ''Form''), (''fields'', Ref fs)])"
proof -
  let ?w = "projr (new_Component Undefined empty_globals)"
  let ?G = "snd (alloc (Plain [(''schema'', Str ''B'')])
                (snd (alloc (Plain [(''schema'', Str ''A'')]) (snd ?w))))"
  let ?s1 = "set_props (Ref 11) (fst ?w, ?G)"
  let ?s2 = "set_props (Ref 12) (snd ?s1)"
  have n: "new_Component Undefined empty_globals = Inr (fst ?w, snd ?w)"
    using first_component by simp
  have e1: "fst ?s1 = None" by (simp add: eval_defs)
  have e2: "fst ?s2 = None" by (simp add: eval_defs)
  have p1: "props_get (heap ?G) (Ref 11) ''schema'' = Some (Str ''A'')"
    by (simp add: eval_defs)
  have p2: "props_get (heap (snd (snd ?s1))) (Ref 12) ''schema'' = Some (Str ''B'')"
    by (simp add: eval_defs)
  have l: "schema_list (fst ?w, ?G) = [Ref 7]"
    by (simp add: eval_defs schema_list_def array_at_def getOne_def u_getIfAllowed_def
        allowed_names_def)
  have d: "Str ''A'' \<noteq> Undefined" "Str ''B'' \<noteq> Undefined" by simp_all
  have q1: "set_props (Ref 11) (fst ?w, ?G) = (None, fst (snd ?s1), snd (snd ?s1))"
    using e1 by (simp add: prod_eq_iff)
  have q2: "set_props (Ref 12) (fst (snd ?s1), snd (snd ?s1)) = (None, fst (snd ?s2), snd (snd ?s2))"
    using e2 by (simp add: prod_eq_iff)
  note t = schema_accumulates [where ?p1.0 = "Ref 11" and c = "fst ?w" and g = ?G
      and ?c1.0 = "fst (snd ?s1)" and ?g1.0 = "snd (snd ?s1)" and A = "Str ''A''"
      and ?p2.0 = "Ref 12" and ?c2.0 = "fst (snd ?s2)" and ?g2.0 = "snd (snd ?s2)"
      and B = "Str ''B''" and props = Undefined and ?g0.0 = empty_globals
      and c' = "fst ?w" and g' = "snd ?w"]
  have "\<exists>a. get_props (Name ''schema'') (fst (snd ?s2)) = Single (Ref a) \<and>
        heap (snd (snd ?s2)) a = Array (schema_list (fst ?w, ?G) @ [Str ''A'', Str ''B''])"
    by (rule t [THEN conjunct1, THEN mp]) (intro conjI q1 p1 d q2 p2)
  moreover have "\<exists>s fs xs. schema_list (fst ?w, snd ?w) = Ref s # xs \<and>
      heap (snd ?w) s = Plain [(''component'', Str ''Form''), (''fields'', Ref fs)]"
    by (rule t [THEN conjunct2, THEN mp]) (rule n)
  ultimately show ?thesis unfolding l by (simp only: prod.collapse)
qed

section \<open>Default milestones\<close>






















section \<open>Listener chains and milestones\<close>

lemma resume_rejected:
  "i < length (suspended c) \<Longrightarrow> ch_awaiting (suspended c ! i) = Rejects e \<Longrightarrow>
     resume i c = c\<lparr>suspended := remove_nth i (suspended c)\<rparr>"
  by (simp add: resume_def Let_def)

text \<open>
  C2, at a component built with two listeners on \<open>create\<close>, the first with an action that
  resolves and the second with an action that never settles. When the constructor
  returns both invocations are suspended and \<open>created\<close> has been emitted already, by
  the default emitter; when the first invocation is resumed \<open>created\<close> is emitted again,
  with the second still suspended.
\<close>

theorem created_before_chains_resolve:
  "\<not> isl (new_Component (Ref 1)
       (snd (alloc (Plain [(''listeners'', Ref 0)])
         (snd (alloc (Listeners [Listener ''create'' [Action (\<lambda>x. Resolves (Num 1))],
                                 Listener ''create'' [Action (\<lambda>x. Pending)]]) empty_globals))))) \<and>
   map ch_awaiting (suspended (fst (projr (new_Component (Ref 1)
       (snd (alloc (Plain [(''listeners'', Ref 0)])
         (snd (alloc (Listeners [Listener ''create'' [Action (\<lambda>x. Resolves (Num 1))],
                                 Listener ''create'' [Action (\<lambda>x. Pending)]]) empty_globals))))))))
     = [Resolves (Num 1), Pending] \<and>
   drop 4 (trace (fst (projr (new_Component (Ref 1)
       (snd (alloc (Plain [(''listeners'', Ref 0)])
         (snd (alloc (Listeners [Listener ''create'' [Action (\<lambda>x. Resolves (Num 1))],
                                 Listener ''create'' [Action (\<lambda>x. Pending)]]) empty_globals))))))))
     = [Emit ''create'' [Undefined],
        Run \<lparr>ctx_event = ''create'', ctx_ifData = Undefined, ctx_arguments = Null\<rparr>,
        Run \<lparr>ctx_event = ''create'', ctx_ifData = Undefined, ctx_arguments = Null\<rparr>,
        Emit ''created'' [Undefined], Emit ''$change'' [Str ''created'', Undefined],
        Emit ''$change'' [Str ''create'', Undefined]] \<and>
   map ch_awaiting (suspended (resume 0 (fst (projr (new_Component (Ref 1)
       (snd (alloc (Plain [(''listeners'', Ref 0)])
         (snd (alloc (Listeners [Listener ''create'' [Action (\<lambda>x. Resolves (Num 1))],
                                 Listener ''create'' [Action (\<lambda>x. Pending)]]) empty_globals)))))))))
     = [Pending] \<and>
   drop 10 (trace (resume 0 (fst (projr (new_Component (Ref 1)
       (snd (alloc (Plain [(''listeners'', Ref 0)])
         (snd (alloc (Listeners [Listener ''create'' [Action (\<lambda>x. Resolves (Num 1))],
                                 Listener ''create'' [Action (\<lambda>x. Pending)]]) empty_globals)))))))))
     = [Emit ''created'' [Undefined], Emit ''$change'' [Str ''created'', Undefined]]"
  by (simp add: eval_defs resume_def remove_nth_def)

text \<open>
  C3, at a component built with one listener on \<open>create\<close> whose first action rejects.
  The second action is never run and resuming the rejected invocation changes nothing
  but the list of suspended invocations; yet \<open>created\<close> has been emitted for this
  firing of \<open>create\<close>, by the default emitter.
\<close>

theorem created_despite_rejection:
  "\<not> isl (new_Component (Ref 1)
       (snd (alloc (Plain [(''listeners'', Ref 0)])
         (snd (alloc (Listeners [Listener ''create''
                 [Action (\<lambda>x. Rejects (Str ''failed'')), Action (\<lambda>x. Resolves (Num 2))]])
               empty_globals))))) \<and>
   map ch_awaiting (suspended (fst (projr (new_Component (Ref 1)
       (snd (alloc (Plain [(''listeners'', Ref 0)])
         (snd (alloc (Listeners [Listener ''create''
                 [Action (\<lambda>x. Rejects (Str ''failed'')), Action (\<lambda>x. Resolves (Num 2))]])
               empty_globals))))))))
     = [Rejects (Str ''failed'')] \<and>
   drop 4 (trace (fst (projr (new_Component (Ref 1)
       (snd (alloc (Plain [(''listeners'', Ref 0)])
         (snd (alloc (Listeners [Listener ''create''
                 [Action (\<lambda>x. Rejects (Str ''failed'')), Action (\<lambda>x. Resolves (Num 2))]])
               empty_globals))))))))
     = [Emit ''create'' [Undefined],
        Run \<lparr>ctx_event = ''create'', ctx_ifData = Undefined, ctx_arguments = Null\<rparr>,
        Emit ''created'' [Undefined], Emit ''$change'' [Str ''created'', Undefined],
        Emit ''$change'' [Str ''create'', Undefined]] \<and>
   resume 0 (fst (projr (new_Component (Ref 1)
       (snd (alloc (Plain [(''listeners'', Ref 0)])
         (snd (alloc (Listeners [Listener ''create''
                 [Action (\<lambda>x. Rejects (Str ''failed'')), Action (\<lambda>x. Resolves (Num 2))]])
               empty_globals)))))))
     = (fst (projr (new_Component (Ref 1)
       (snd (alloc (Plain [(''listeners'', Ref 0)])
         (snd (alloc (Listeners [Listener ''create''
                 [Action (\<lambda>x. Rejects (Str ''failed'')), Action (\<lambda>x. Resolves (Num 2))]])
               empty_globals)))))))\<lparr>suspended := []\<rparr>"
  by (simp add: eval_defs resume_def remove_nth_def)

text \<open>
  C4, at a component on which \<open>set\<close> is called twice with the same \<open>listeners\<close>: the
  listener's closure is subscribed twice, while each default emitter is subscribed once.
\<close>

theorem listeners_subscribed_twice:
  "fst (set_props (Ref 12) (snd (set_props (Ref 12)
       (fst (projr (new_Component Undefined empty_globals)),
        snd (alloc (Plain [(''listeners'', Ref 11)])
          (snd (alloc (Listeners [Listener ''save'' []])
            (snd (projr (new_Component Undefined empty_globals)))))))))) = None \<and>
   handlers_for ''save'' (fst (snd (set_props (Ref 12) (snd (set_props (Ref 12)
       (fst (projr (new_Component Undefined empty_globals)),
        snd (alloc (Plain [(''listeners'', Ref 11)])
          (snd (alloc (Listeners [Listener ''save'' []])
            (snd (projr (new_Component Undefined empty_globals)))))))))))) 
     = [HChain (Listener ''save'' []) Undefined, HChain (Listener ''save'' []) Undefined] \<and>
   handlers_for ''create'' (fst (snd (set_props (Ref 12) (snd (set_props (Ref 12)
       (fst (projr (new_Component Undefined empty_globals)),
        snd (alloc (Plain [(''listeners'', Ref 11)])
          (snd (alloc (Listeners [Listener ''save'' []])
            (snd (projr (new_Component Undefined empty_globals))))))))))))
     = [HFun (EmitFn 0 ''created'')]"
  by (simp add: eval_defs)

section \<open>Components built through the interface\<close>

lemma resume_same:
  "cid (resume i c) = cid c \<and> own (resume i c) = own c \<and> subs (resume i c) = subs c"
proof -
  have "extends (c\<lparr>suspended := xs\<rparr>) (await_action d ev ifd v acts (c\<lparr>suspended := xs\<rparr>))"
    for xs d ev ifd v acts
    by (rule emit_extends_all(4))
  then have "cid (await_action d ev ifd v acts (c\<lparr>suspended := xs\<rparr>)) = cid c \<and>
      own (await_action d ev ifd v acts (c\<lparr>suspended := xs\<rparr>)) = own c \<and>
      subs (await_action d ev ifd v acts (c\<lparr>suspended := xs\<rparr>)) = subs c" for xs d ev ifd v acts
    by (simp add: extends_def)
  then show ?thesis
    by (simp add: resume_def Let_def split: outcome.splits)
qed

lemma wired_same:
  "cid c' = cid c \<Longrightarrow> own c' = own c \<Longrightarrow> subs c' = subs c \<Longrightarrow>
     wired c' = wired c \<and> defaults_on c' = defaults_on c \<and> getKey c' = getKey c"
  by (simp add: wired_def defaults_on_def getKey_def this_get_def)


lemma built_key: "built c \<Longrightarrow> \<exists>k. getKey c = Num k"
proof (induction rule: built.induct)
  case (constructed props g c g')
  from new_Component_Inr [OF this] show ?case
    by (auto simp: getKey_def this_get_this_set_same)
next
  case (after_set c props g c' g')
  then show ?case using set_props_frame [of props c g None c' g'] frame_key by auto
next
  case (after_load c r c')
  then have "extends c c'" by (auto simp: emitLoad_def dest: u_emitChange_extends)
  then show ?case using after_load.IH frame_key [OF extends_frame] by auto
next
  case (after_resume c i)
  then show ?case using wired_same [of "resume i c" c] resume_same [of i c] by simp
qed






text \<open>
  C10. On every component built by the constructor and used through the interface, the
  duplicate that \<open>clone\<close> returns has the key of its source, whatever the deep copy of
  the library does with objects: the key is a number and is taken over as it is.
\<close>

theorem clone_keeps_key:
  "built c \<Longrightarrow> getKey (fst (clone dc (c, g))) = getKey c"
proof -
  assume "built c"
  then obtain k where "getKey c = Num k" using built_key by blast
  then show ?thesis using clone_key_number by simp
qed

theorem clone_keeps_key_witness:
  "built (fst (projr (new_Component Undefined empty_globals))) \<and>
   getKey (fst (clone copy_object (projr (new_Component Undefined empty_globals))))
     = getKey (fst (projr (new_Component Undefined empty_globals)))"
proof -
  let ?w = "projr (new_Component Undefined empty_globals)"
  have n: "new_Component Undefined empty_globals = Inr (fst ?w, snd ?w)"
    using first_component by simp
  have b: "built (fst ?w)" using n by (rule built.constructed)
  show ?thesis
    using clone_keeps_key [OF b, of copy_object "snd ?w"] b by simp
qed

end
